theory Spec2Isabelle
  imports Complex_Main "HOL-Library.Word" "HOL-Library.Multiset"
begin

unbundle bit_operations_syntax

text \<open>
  A model of \<^verbatim>\<open>cache_detect.c\<close>, a pointer-chasing benchmark that estimates cache sizes:
  its generator of pseudo-random numbers, the builders of node orders, the chase graph,
  the generator of working-set sizes, the measurement loop and the detector of latency
  boundaries, followed by the properties proved of them.
\<close>

section \<open>Machine integers\<close>

text \<open>
  \<^verbatim>\<open>uint64_t\<close> is \<open>64 word\<close>. \<^verbatim>\<open>size_t\<close> is taken to be 64 bits wide (LP64); indices
  and sizes are natural numbers, with the wrap-around at \<open>2 ^ 64\<close> written out wherever
  the C arithmetic can reach it. A right shift \<^verbatim>\<open>x >> i\<close> of such a number is
  \<open>x div 2 ^ i\<close>.
\<close>

type_synonym u64 = "64 word"

definition SIZE_MAX :: nat where
  "SIZE_MAX = 2 ^ 64 - 1"

section \<open>PRNG\<close>

text \<open>
  \<^verbatim>\<open>struct Random64\<close> has the single field \<^verbatim>\<open>state\<close>; the generator's state is passed
  and returned. \<open>xorshift\<close> is the update of the state in \<^verbatim>\<open>rng_next\<close>, which returns
  the new state times a constant.
\<close>

type_synonym Random64 = u64

definition xorshift :: "u64 \<Rightarrow> u64" where
  "xorshift s =
     (let x = s;
          x = x XOR drop_bit 12 x;
          x = x XOR push_bit 25 x;
          x = x XOR drop_bit 27 x
      in x)"

definition rng_next :: "Random64 \<Rightarrow> u64 \<times> Random64" where
  "rng_next r = (let x = xorshift r in (x * 2685821657736338717, x))"

text \<open>\<^verbatim>\<open>threshold = (~(uint64_t)0) % n\<close> of \<^verbatim>\<open>rng_uniform\<close>.\<close>

definition rng_threshold :: "u64 \<Rightarrow> u64" where
  "rng_threshold n = (NOT 0) mod n"

text \<open>
  The \<^verbatim>\<open>for (;;)\<close> loop of \<^verbatim>\<open>rng_uniform\<close>: it may run forever, which is \<open>None\<close>.
\<close>

partial_function (option) rng_uniform_loop :: "u64 \<Rightarrow> u64 \<Rightarrow> Random64 \<Rightarrow> (u64 \<times> Random64) option" where
  "rng_uniform_loop threshold n r =
     (case rng_next r of
        (x, r') \<Rightarrow> if x \<ge> threshold then Some (x mod n, r') else rng_uniform_loop threshold n r')"

text \<open>\<^verbatim>\<open>rng_uniform(r, n)\<close>. The remainder by \<open>n = 0\<close> is undefined in C: \<open>None\<close>.\<close>

definition rng_uniform :: "Random64 \<Rightarrow> u64 \<Rightarrow> (u64 \<times> Random64) option" where
  "rng_uniform r n = (if n = 0 then None else rng_uniform_loop (rng_threshold n) n r)"

section \<open>Order builders\<close>

text \<open>
  The caller's array \<^verbatim>\<open>order\<close> is a list with at least \<^verbatim>\<open>num_nodes\<close> entries; a
  builder writes the first \<^verbatim>\<open>num_nodes\<close> of them. Every \<^verbatim>\<open>for\<close> loop is a function of
  its index.
\<close>

function build_order_sequential_loop :: "nat list \<Rightarrow> nat \<Rightarrow> nat \<Rightarrow> nat list" where
  "build_order_sequential_loop order num_nodes i =
     (if i < num_nodes then build_order_sequential_loop (order[i := i]) num_nodes (i + 1) else order)"
  by pat_completeness auto
termination
  by (relation "measure (\<lambda>(order, num_nodes, i). num_nodes - i)") auto

declare build_order_sequential_loop.simps [simp del]

definition build_order_sequential :: "nat list \<Rightarrow> nat \<Rightarrow> nat list" where
  "build_order_sequential order num_nodes = build_order_sequential_loop order num_nodes 0"

function build_order_reverse_loop :: "nat list \<Rightarrow> nat \<Rightarrow> nat \<Rightarrow> nat list" where
  "build_order_reverse_loop order num_nodes i =
     (if i < num_nodes
      then build_order_reverse_loop (order[i := num_nodes - 1 - i]) num_nodes (i + 1)
      else order)"
  by pat_completeness auto
termination
  by (relation "measure (\<lambda>(order, num_nodes, i). num_nodes - i)") auto

declare build_order_reverse_loop.simps [simp del]

definition build_order_reverse :: "nat list \<Rightarrow> nat \<Rightarrow> nat list" where
  "build_order_reverse order num_nodes = build_order_reverse_loop order num_nodes 0"

text \<open>
  The Fisher-Yates loop \<^verbatim>\<open>for (i = num_nodes - 1; i > 0; --i)\<close> of \<^verbatim>\<open>build_order_random\<close>;
  the three assignments of the swap read \<^verbatim>\<open>order[i]\<close> before either write.
\<close>

function shuffle_loop :: "nat list \<Rightarrow> nat \<Rightarrow> Random64 \<Rightarrow> (nat list \<times> Random64) option" where
  "shuffle_loop order i rng =
     (if i > 0
      then (case rng_uniform rng (of_nat (i + 1)) of
              None \<Rightarrow> None
            | Some (j, rng') \<Rightarrow>
                shuffle_loop (order[i := order ! unat j, unat j := order ! i]) (i - 1) rng')
      else Some (order, rng))"
  by pat_completeness auto
termination
  by (relation "measure (\<lambda>(order, i, rng). i)") auto

declare shuffle_loop.simps [simp del]

text \<open>\<^verbatim>\<open>num_nodes - 1\<close> is computed in \<^verbatim>\<open>size_t\<close>: for \<open>num_nodes = 0\<close> it is \<open>SIZE_MAX\<close>.\<close>

definition build_order_random :: "nat list \<Rightarrow> nat \<Rightarrow> Random64 \<Rightarrow> (nat list \<times> Random64) option" where
  "build_order_random order num_nodes rng =
     shuffle_loop (build_order_sequential_loop order num_nodes 0)
       ((num_nodes + 2 ^ 64 - 1) mod 2 ^ 64) rng"

subsection \<open>Stride\<close>

text \<open>
  The scratch array \<^verbatim>\<open>visited\<close> is allocated by \<^verbatim>\<open>calloc(num_nodes, 1)\<close>: its length is
  \<^verbatim>\<open>num_nodes\<close>, which the loops below read off the list. The innermost loop
  \<^verbatim>\<open>while (!visited[i])\<close> walks one orbit; \<open>i + k\<close> wraps at \<open>2 ^ 64\<close>.
\<close>

lemma unvisited_update_less:
  "i < length visited \<Longrightarrow> \<not> visited ! i \<Longrightarrow>
     length (filter Not (visited[i := True])) < length (filter Not visited)"
proof (induction visited arbitrary: i)
  case Nil
  then show ?case by simp
next
  case (Cons b bs)
  then show ?case by (cases i) auto
qed

function stride_walk ::
  "nat \<Rightarrow> nat list \<Rightarrow> bool list \<Rightarrow> nat \<Rightarrow> nat \<Rightarrow> nat list \<times> bool list \<times> nat" where
  "stride_walk k order visited cnt i =
     (if i < length visited \<and> \<not> visited ! i
      then stride_walk k (order[cnt := i]) (visited[i := True]) (cnt + 1)
             (((i + k) mod 2 ^ 64) mod length visited)
      else (order, visited, cnt))"
  by pat_completeness auto
termination
  by (relation "measure (\<lambda>(k, order, visited, cnt, i). length (filter Not visited))")
     (auto simp: unvisited_update_less)

declare stride_walk.simps [simp del]

text \<open>\<^verbatim>\<open>while (start < num_nodes && visited[start]) start++\<close>\<close>

function stride_skip :: "bool list \<Rightarrow> nat \<Rightarrow> nat" where
  "stride_skip visited start =
     (if start < length visited \<and> visited ! start then stride_skip visited (start + 1) else start)"
  by pat_completeness auto
termination
  by (relation "measure (\<lambda>(visited, start). length visited - start)") auto

declare stride_skip.simps [simp del]

text \<open>
  The outer loop \<^verbatim>\<open>while (count < num_nodes)\<close> of \<^verbatim>\<open>build_order_stride\<close>, with its
  \<^verbatim>\<open>break\<close> when no unvisited index is left.
\<close>

lemma stride_walk_length:
  "stride_walk k order visited cnt i = (order', visited', cnt') \<Longrightarrow> length visited' = length visited"
  by (induction k order visited cnt i rule: stride_walk.induct)
     (subst (asm) (2) stride_walk.simps, auto split: if_splits)

lemma stride_walk_unvisited_le:
  "stride_walk k order visited cnt i = (order', visited', cnt') \<Longrightarrow>
     length (filter Not visited') \<le> length (filter Not visited)"
proof (induction k order visited cnt i rule: stride_walk.induct)
  case (1 k order visited cnt i)
  show ?case
  proof (cases "i < length visited \<and> \<not> visited ! i")
    case True
    with "1.prems" have "stride_walk k (order[cnt := i]) (visited[i := True]) (cnt + 1)
             (((i + k) mod 2 ^ 64) mod length visited) = (order', visited', cnt')"
      by (subst (asm) stride_walk.simps) simp
    from "1.IH" [OF True this] unvisited_update_less [of i visited] True
    show ?thesis by simp
  next
    case False
    with "1.prems" show ?thesis by (subst (asm) stride_walk.simps) auto
  qed
qed

lemma stride_walk_unvisited_less:
  assumes "stride_walk k order visited cnt i = (order', visited', cnt')"
    and "i < length visited" and "\<not> visited ! i"
  shows "length (filter Not visited') < length (filter Not visited)"
proof -
  from assms have "stride_walk k (order[cnt := i]) (visited[i := True]) (cnt + 1)
             (((i + k) mod 2 ^ 64) mod length visited) = (order', visited', cnt')"
    by (subst (asm) stride_walk.simps) simp
  from stride_walk_unvisited_le [OF this] unvisited_update_less [OF assms(2,3)]
  show ?thesis by simp
qed

lemma stride_walk_visited:
  "\<not> (i < length visited \<and> \<not> visited ! i) \<Longrightarrow> stride_walk k order visited cnt i = (order, visited, cnt)"
  by (subst stride_walk.simps) auto

lemma stride_skip_stop:
  "stride_skip visited start < length visited \<Longrightarrow> \<not> visited ! stride_skip visited start"
  by (induction visited start rule: stride_skip.induct)
     (subst (asm) (2) stride_skip.simps, subst stride_skip.simps, auto split: if_splits)

definition stride_rank :: "nat \<times> nat list \<times> bool list \<times> nat \<times> nat \<Rightarrow> nat" where
  "stride_rank = (\<lambda>(k, order, visited, cnt, start).
     if cnt < length visited
     then 1 + 2 * length (filter Not visited)
            + (if start < length visited \<and> \<not> visited ! start then 0 else 1)
     else 0)"

function stride_outer :: "nat \<Rightarrow> nat list \<Rightarrow> bool list \<Rightarrow> nat \<Rightarrow> nat \<Rightarrow> nat list" where
  "stride_outer k order visited cnt start =
     (if cnt < length visited
      then (case stride_walk k order visited cnt start of
              (order', visited', cnt') \<Rightarrow>
                if cnt' < length visited
                then (let start' = stride_skip visited' start
                      in if start' \<ge> length visited then order'
                         else stride_outer k order' visited' cnt' start')
                else stride_outer k order' visited' cnt' start)
      else order)"
  by pat_completeness auto
termination
proof (relation "measure stride_rank", goal_cases)
  case 1
  show ?case by simp
next
  case (2 k order visited cnt start order' y visited' cnt' start')
  have w: "stride_walk k order visited cnt start = (order', visited', cnt')"
    using 2(2) 2(3) by simp
  have len: "length visited' = length visited"
    using w by (rule stride_walk_length)
  have c: "cnt < length visited" and c': "cnt' < length visited'"
    using 2(1) 2(4) len by simp_all
  have "stride_skip visited' start < length visited'"
    using 2(5) 2(6) len by simp
  then have "\<not> visited' ! stride_skip visited' start"
    by (rule stride_skip_stop)
  then have s': "start' < length visited'" "\<not> visited' ! start'"
    using 2(5) 2(6) len by simp_all
  show ?case
  proof (cases "start < length visited \<and> \<not> visited ! start")
    case True
    then have "length (filter Not visited') < length (filter Not visited)"
      using stride_walk_unvisited_less [OF w] by blast
    with c c' s' len True show ?thesis by (simp add: stride_rank_def)
  next
    case False
    then have "stride_walk k order visited cnt start = (order, visited, cnt)"
      by (rule stride_walk_visited)
    with w have "visited' = visited" by simp
    with c c' s' False show ?thesis by (simp add: stride_rank_def)
  qed
next
  case (3 k order visited cnt start order' y visited' cnt')
  have w: "stride_walk k order visited cnt start = (order', visited', cnt')"
    using 3(2) 3(3) by simp
  have len: "length visited' = length visited"
    using w by (rule stride_walk_length)
  with 3(1) 3(4) show ?case by (simp add: stride_rank_def)
qed

declare stride_outer.simps [simp del]

text \<open>
  \<^verbatim>\<open>build_order_stride\<close>. Whether \<^verbatim>\<open>calloc\<close> returns the scratch array is the
  environment's choice, the argument \<open>alloc_ok\<close>; when it fails the order is sequential.
\<close>

definition build_order_stride :: "bool \<Rightarrow> nat list \<Rightarrow> nat \<Rightarrow> nat \<Rightarrow> nat list" where
  "build_order_stride alloc_ok order num_nodes k0 =
     (if num_nodes = 0 then order
      else
        let k = (if k0 = 0 then 1 else k0)
        in if \<not> alloc_ok then build_order_sequential order num_nodes
           else stride_outer k order (replicate num_nodes False) 0 0)"

subsection \<open>Interleave, Gray code, bit reversal\<close>

function build_order_interleave_loop :: "nat list \<Rightarrow> nat \<Rightarrow> nat \<Rightarrow> nat \<Rightarrow> nat list \<times> nat" where
  "build_order_interleave_loop order half i out =
     (if i < half
      then build_order_interleave_loop (order[out := i, out + 1 := i + half]) half (i + 1) (out + 2)
      else (order, out))"
  by pat_completeness auto
termination
  by (relation "measure (\<lambda>(order, half, i, out). half - i)") auto

declare build_order_interleave_loop.simps [simp del]

definition build_order_interleave :: "nat list \<Rightarrow> nat \<Rightarrow> nat list" where
  "build_order_interleave order num_nodes =
     (let half = num_nodes div 2
      in case build_order_interleave_loop order half 0 0 of
           (order', out) \<Rightarrow>
             if num_nodes AND 1 \<noteq> 0 then order'[out := num_nodes - 1] else order')"

text \<open>
  \<^verbatim>\<open>while ((m << 1) > m && (m << 1) <= bound) m <<= 1\<close>: the largest power of two up to
  \<open>bound\<close>, computed by doubling; the shift wraps at \<open>2 ^ 64\<close>, which the first test
  catches. The same loop starts \<^verbatim>\<open>generate_sizes\<close>.
\<close>

function double_up_to :: "nat \<Rightarrow> nat \<Rightarrow> nat" where
  "double_up_to bound m =
     (if (m * 2) mod 2 ^ 64 > m \<and> (m * 2) mod 2 ^ 64 \<le> bound
      then double_up_to bound ((m * 2) mod 2 ^ 64)
      else m)"
  by pat_completeness auto
termination
proof (relation "measure (\<lambda>(bound, m). 2 ^ 64 - m)", goal_cases)
  case 1
  show ?case by simp
next
  case (2 bound m)
  define q where "q = (m * 2) mod (2 ^ 64 :: nat)"
  have "q < 2 ^ 64" unfolding q_def by (rule mod_less_divisor) simp
  moreover from 2 have "m < q" unfolding q_def by simp
  ultimately have "2 ^ 64 - q < (2 ^ 64 :: nat) - m" by arith
  then show ?case unfolding q_def by simp
qed

declare double_up_to.simps [simp del]

function build_order_gray_head :: "nat list \<Rightarrow> nat \<Rightarrow> nat \<Rightarrow> nat \<Rightarrow> nat list \<times> nat" where
  "build_order_gray_head order m i out =
     (if i < m
      then build_order_gray_head (order[out := i XOR (i div 2)]) m (i + 1) (out + 1)
      else (order, out))"
  by pat_completeness auto
termination
  by (relation "measure (\<lambda>(order, m, i, out). m - i)") auto

declare build_order_gray_head.simps [simp del]

function build_order_gray_tail :: "nat list \<Rightarrow> nat \<Rightarrow> nat \<Rightarrow> nat \<Rightarrow> nat list \<times> nat" where
  "build_order_gray_tail order num_nodes i out =
     (if i < num_nodes
      then build_order_gray_tail (order[out := i]) num_nodes (i + 1) (out + 1)
      else (order, out))"
  by pat_completeness auto
termination
  by (relation "measure (\<lambda>(order, num_nodes, i, out). num_nodes - i)") auto

declare build_order_gray_tail.simps [simp del]

definition build_order_gray :: "nat list \<Rightarrow> nat \<Rightarrow> nat list" where
  "build_order_gray order num_nodes =
     (if num_nodes = 0 then order
      else
        let m = double_up_to num_nodes 1
        in case build_order_gray_head order m 0 0 of
             (order', out) \<Rightarrow> fst (build_order_gray_tail order' num_nodes m out))"

text \<open>
  \<^verbatim>\<open>reverse_bits_limited\<close>: \<^verbatim>\<open>r = (r << 1) | ((x >> i) & 1u)\<close> for \<open>i < bits\<close>, the
  shift of \<open>r\<close> wrapping at \<open>2 ^ 64\<close>.
\<close>

function reverse_bits_loop :: "nat \<Rightarrow> nat \<Rightarrow> nat \<Rightarrow> nat \<Rightarrow> nat" where
  "reverse_bits_loop x bits i r =
     (if i < bits
      then reverse_bits_loop x bits (i + 1) (((r * 2) mod 2 ^ 64) OR ((x div 2 ^ i) AND 1))
      else r)"
  by pat_completeness auto
termination
  by (relation "measure (\<lambda>(x, bits, i, r). bits - i)") auto

declare reverse_bits_loop.simps [simp del]

definition reverse_bits_limited :: "nat \<Rightarrow> nat \<Rightarrow> nat" where
  "reverse_bits_limited x bits = reverse_bits_loop x bits 0 0"

text \<open>\<^verbatim>\<open>while (tmp > 0) { bits++; tmp >>= 1; }\<close>\<close>

function count_bits :: "nat \<Rightarrow> nat \<Rightarrow> nat" where
  "count_bits tmp bits = (if tmp > 0 then count_bits (tmp div 2) (bits + 1) else bits)"
  by pat_completeness auto
termination
  by (relation "measure (\<lambda>(tmp, bits). tmp)") auto

declare count_bits.simps [simp del]

text \<open>
  The loop \<^verbatim>\<open>for (i = 0; i < limit; ++i)\<close> of \<^verbatim>\<open>build_order_bitrev\<close>, which leaves by
  \<^verbatim>\<open>break\<close> once \<^verbatim>\<open>out == num_nodes\<close>.
\<close>

function build_order_bitrev_loop :: "nat list \<Rightarrow> nat \<Rightarrow> nat \<Rightarrow> nat \<Rightarrow> nat \<Rightarrow> nat \<Rightarrow> nat list" where
  "build_order_bitrev_loop order num_nodes bits limit i out =
     (if i < limit
      then (let rev = reverse_bits_limited i bits;
                order' = (if rev < num_nodes then order[out := rev] else order);
                out' = (if rev < num_nodes then out + 1 else out)
            in if out' = num_nodes then order'
               else build_order_bitrev_loop order' num_nodes bits limit (i + 1) out')
      else order)"
  by pat_completeness auto
termination
  by (relation "measure (\<lambda>(order, num_nodes, bits, limit, i, out). limit - i)") auto

declare build_order_bitrev_loop.simps [simp del]

text \<open>
  \<^verbatim>\<open>build_order_bitrev\<close>. The shift \<^verbatim>\<open>((size_t)1) << bits\<close> is undefined in C for
  \<open>bits = 64\<close>, that is for \<open>num_nodes > 2 ^ 63\<close>: \<open>None\<close>.
\<close>

definition build_order_bitrev :: "nat list \<Rightarrow> nat \<Rightarrow> nat list option" where
  "build_order_bitrev order num_nodes =
     (if num_nodes = 0 then Some order
      else
        let bits = count_bits (num_nodes - 1) 0
        in if bits \<ge> 64 then None
           else Some (build_order_bitrev_loop order num_nodes bits (2 ^ bits) 0 0))"

subsection \<open>The pattern switch\<close>

text \<open>
  \<^verbatim>\<open>enum Pattern\<close>: a C enumeration is an integer, and the \<^verbatim>\<open>switch\<close> of
  \<^verbatim>\<open>build_cycle_pattern\<close> has a \<^verbatim>\<open>default\<close> branch for the values that name no pattern.
\<close>

type_synonym Pattern = nat

definition PATTERN_RANDOM :: Pattern where "PATTERN_RANDOM = 0"
definition PATTERN_SEQUENTIAL :: Pattern where "PATTERN_SEQUENTIAL = 1"
definition PATTERN_REVERSE :: Pattern where "PATTERN_REVERSE = 2"
definition PATTERN_STRIDE :: Pattern where "PATTERN_STRIDE = 3"
definition PATTERN_INTERLEAVE :: Pattern where "PATTERN_INTERLEAVE = 4"
definition PATTERN_GRAY :: Pattern where "PATTERN_GRAY = 5"
definition PATTERN_BITREVERSE :: Pattern where "PATTERN_BITREVERSE = 6"


text \<open>The \<^verbatim>\<open>switch (p)\<close> of \<^verbatim>\<open>build_cycle_pattern\<close>: the order array and the generator after it.\<close>

definition build_order_switch ::
  "bool \<Rightarrow> nat list \<Rightarrow> nat \<Rightarrow> Random64 \<Rightarrow> Pattern \<Rightarrow> nat \<Rightarrow> (nat list \<times> Random64) option" where
  "build_order_switch alloc_ok order num_nodes rng p pattern_arg =
     (if p = PATTERN_RANDOM then build_order_random order num_nodes rng
      else if p = PATTERN_SEQUENTIAL then Some (build_order_sequential order num_nodes, rng)
      else if p = PATTERN_REVERSE then Some (build_order_reverse order num_nodes, rng)
      else if p = PATTERN_STRIDE
        then Some (build_order_stride alloc_ok order num_nodes
                     (if pattern_arg = 0 then 1 else pattern_arg), rng)
      else if p = PATTERN_INTERLEAVE then Some (build_order_interleave order num_nodes, rng)
      else if p = PATTERN_GRAY then Some (build_order_gray order num_nodes, rng)
      else if p = PATTERN_BITREVERSE
        then map_option (\<lambda>order'. (order', rng)) (build_order_bitrev order num_nodes)
      else build_order_random order num_nodes rng)"

section \<open>Chase graph\<close>











section \<open>Size generator\<close>

text \<open>\<^verbatim>\<open>if (count < out_cap) out[count++] = v\<close>: the list holds the \<open>count\<close> entries written so far.\<close>

definition emit :: "nat \<Rightarrow> nat list \<Rightarrow> nat \<Rightarrow> nat list" where
  "emit out_cap out v = (if length out < out_cap then out @ [v] else out)"

text \<open>One pass of the body of the \<^verbatim>\<open>for (; p <= max_bytes; p <<= 1)\<close> loop, before its \<^verbatim>\<open>break\<close> test.\<close>

definition sizes_body :: "nat \<Rightarrow> nat \<Rightarrow> nat \<Rightarrow> nat \<Rightarrow> nat list \<Rightarrow> nat list" where
  "sizes_body min_bytes max_bytes out_cap p out0 =
     (let out = (if p \<ge> min_bytes then emit out_cap out0 p else out0);
          v15 = p + p div 2;
          out = (if v15 \<ge> min_bytes \<and> v15 \<le> max_bytes then emit out_cap out v15 else out);
          out = (if p \<le> 2 ^ 20
                 then (let v125 = p + p div 4;
                           v175 = p + (p * 3) div 4;
                           out = (if v125 \<ge> min_bytes \<and> v125 \<le> max_bytes
                                  then emit out_cap out v125 else out)
                       in if v175 \<ge> min_bytes \<and> v175 \<le> max_bytes
                          then emit out_cap out v175 else out)
                 else out)
      in if p \<le> 128 * 2 ^ 10
         then (let v1125 = p + p div 8;
                   v1375 = p + (p * 3) div 8;
                   v1625 = p + (p * 5) div 8;
                   v1875 = p + (p * 7) div 8;
                   out = (if v1125 \<ge> min_bytes \<and> v1125 \<le> max_bytes
                          then emit out_cap out v1125 else out);
                   out = (if v1375 \<ge> min_bytes \<and> v1375 \<le> max_bytes
                          then emit out_cap out v1375 else out);
                   out = (if v1625 \<ge> min_bytes \<and> v1625 \<le> max_bytes
                          then emit out_cap out v1625 else out)
               in if v1875 \<ge> min_bytes \<and> v1875 \<le> max_bytes
                  then emit out_cap out v1875 else out)
         else out)"

text \<open>
  The loop itself. From \<open>p = 0\<close> it would never leave (\<open>0 << 1 = 0\<close>), so it is a partial
  function; \<^verbatim>\<open>generate_sizes\<close> enters it with \<open>p \<ge> 1024\<close>.
\<close>

partial_function (option) sizes_loop :: "nat \<Rightarrow> nat \<Rightarrow> nat \<Rightarrow> nat \<Rightarrow> nat list \<Rightarrow> nat list option" where
  "sizes_loop min_bytes max_bytes out_cap p out =
     (if p \<le> max_bytes
      then (let out' = sizes_body min_bytes max_bytes out_cap p out
            in if p > SIZE_MAX div 2 then Some out'
               else sizes_loop min_bytes max_bytes out_cap ((p * 2) mod 2 ^ 64) out')
      else Some out)"

text \<open>
  \<^verbatim>\<open>generate_sizes\<close>: the count returned and the \<open>count\<close> entries of \<^verbatim>\<open>out\<close> after
  \<^verbatim>\<open>qsort\<close> with \<^verbatim>\<open>cmp_size_t\<close>, the ascending order of the numbers.
\<close>

definition generate_sizes :: "nat \<Rightarrow> nat \<Rightarrow> nat \<Rightarrow> (nat \<times> nat list) option" where
  "generate_sizes min_bytes max_bytes out_cap =
     (let p = double_up_to min_bytes 1;
          p = (if p < 1024 then 1024 else p)
      in case sizes_loop min_bytes max_bytes out_cap p [] of
           None \<Rightarrow> None
         | Some out \<Rightarrow> Some (length out, sort out))"

section \<open>Measurer\<close>

record Options =
  min_bytes :: nat
  max_bytes :: nat
  node_stride :: nat
  warmup_iters :: "32 word"
  target_ms :: "32 word"
  repeats :: "32 word"
  print_table :: bool
  pattern :: Pattern
  pattern_arg :: nat











section \<open>Boundary detector\<close>

text \<open>
  \<^verbatim>\<open>Sample\<close> and \<^verbatim>\<open>Boundary\<close> of \<^verbatim>\<open>cache_detect.c\<close>. A C \<^verbatim>\<open>double\<close> is
  modelled by a real number: the model and IEEE arithmetic agree wherever the operations
  are exact, and differ by rounding elsewhere. A division by a zero plateau average
  (infinity or NaN in C, 0 in HOL) is outside the model and is reported as \<open>None\<close>.
\<close>

record Sample =
  working_set_bytes :: nat
  ns_per_access :: real

record Boundary =
  approx_size_bytes :: nat
  ratio :: real

record db_state =
  plateau_sum :: real
  plateau_count :: int
  plateau_avg :: real
  last_boundary_idx :: nat
  found :: nat
  out_bounds :: "Boundary list"

definition jump_threshold :: real where
  "jump_threshold = 1.25"

definition min_plateau_points :: int where
  "min_plateau_points = 2"

text \<open>The cast \<^verbatim>\<open>(int)(i - last_boundary_idx)\<close> of a \<^verbatim>\<open>size_t\<close> to a 32-bit \<^verbatim>\<open>int\<close>.\<close>

definition int_of_size :: "nat \<Rightarrow> int" where
  "int_of_size v = sint (word_of_nat v :: 32 word)"

text \<open>One iteration of the \<^verbatim>\<open>for (i = 1; i < n; ++i)\<close> loop of \<^verbatim>\<open>detect_boundaries\<close>.\<close>

definition db_step :: "Sample list \<Rightarrow> nat \<Rightarrow> nat \<Rightarrow> nat \<Rightarrow> db_state \<Rightarrow> db_state option" where
  "db_step samples n out_cap i s =
     (if plateau_avg s = 0 then None
      else
        let ratio = ns_per_access (samples ! i) / plateau_avg s;
            sustained =
              (if ratio > jump_threshold \<and> int_of_size (i - last_boundary_idx s) \<ge> min_plateau_points
               then (if i + 1 < n
                     then ns_per_access (samples ! (i + 1)) / plateau_avg s > jump_threshold * 0.95
                     else True)
               else False)
        in if sustained
           then Some (s\<lparr> out_bounds := (if found s < out_cap
                                  then (out_bounds s)[found s :=
                                         \<lparr> approx_size_bytes = working_set_bytes (samples ! (i - 1)),
                                           ratio = ratio \<rparr>]
                                  else out_bounds s),
                         found := found s + 1,
                         last_boundary_idx := i,
                         plateau_sum := ns_per_access (samples ! i),
                         plateau_count := 1,
                         plateau_avg := ns_per_access (samples ! i) / 1 \<rparr>)
           else Some (s\<lparr> plateau_sum := plateau_sum s + ns_per_access (samples ! i),
                         plateau_count := plateau_count s + 1,
                         plateau_avg := (plateau_sum s + ns_per_access (samples ! i))
                                        / real_of_int (plateau_count s + 1) \<rparr>))"

function db_loop :: "Sample list \<Rightarrow> nat \<Rightarrow> nat \<Rightarrow> nat \<Rightarrow> db_state \<Rightarrow> db_state option" where
  "db_loop samples n out_cap i s =
     (if i < n
      then (case db_step samples n out_cap i s of
              None \<Rightarrow> None
            | Some s' \<Rightarrow> db_loop samples n out_cap (i + 1) s')
      else Some s)"
  by pat_completeness auto
termination
  by (relation "measure (\<lambda>(samples, n, out_cap, i, s). n - i)") auto

declare db_loop.simps [simp del]

text \<open>
  \<^verbatim>\<open>detect_boundaries(samples, n, out, out_cap)\<close>: the caller's array \<open>out0\<close> has
  \<open>out_cap\<close> entries; the result is the returned count and the array after the call.
\<close>

definition detect_boundaries ::
  "Sample list \<Rightarrow> nat \<Rightarrow> Boundary list \<Rightarrow> nat \<Rightarrow> (nat \<times> Boundary list) option" where
  "detect_boundaries samples n out0 out_cap =
     (if n = 0 then Some (0, out0)
      else
        case db_loop samples n out_cap 1
               \<lparr> plateau_sum = ns_per_access (samples ! 0),
                 plateau_count = 1,
                 plateau_avg = ns_per_access (samples ! 0) / 1,
                 last_boundary_idx = 0,
                 found = 0,
                 out_bounds = out0 \<rparr> of
          None \<Rightarrow> None
        | Some s \<Rightarrow> Some (found s, out_bounds s))"

definition mk_samples :: "(nat \<times> real) list \<Rightarrow> Sample list" where
  "mk_samples ps = map (\<lambda>(b, t). \<lparr> working_set_bytes = b, ns_per_access = t \<rparr>) ps"

text \<open>
  The array \<^verbatim>\<open>Boundary bounds[8]\<close> of \<^verbatim>\<open>main\<close> before the call (its contents
  are indeterminate in C; zeros stand for them here).
\<close>

definition bounds0 :: "Boundary list" where
  "bounds0 =
     [\<lparr> approx_size_bytes = 0, ratio = 0 \<rparr>, \<lparr> approx_size_bytes = 0, ratio = 0 \<rparr>,
      \<lparr> approx_size_bytes = 0, ratio = 0 \<rparr>, \<lparr> approx_size_bytes = 0, ratio = 0 \<rparr>,
      \<lparr> approx_size_bytes = 0, ratio = 0 \<rparr>, \<lparr> approx_size_bytes = 0, ratio = 0 \<rparr>,
      \<lparr> approx_size_bytes = 0, ratio = 0 \<rparr>, \<lparr> approx_size_bytes = 0, ratio = 0 \<rparr>]"

text \<open>
  The summary loop of \<^verbatim>\<open>main\<close>, \<^verbatim>\<open>for (i = 0; i < nb; ++i)\<close>, which reads
  \<^verbatim>\<open>bounds[i]\<close> and prints one line per boundary. A read at an index that the array does
  not have is \<open>None\<close>.
\<close>

definition level_name :: "nat \<Rightarrow> string" where
  "level_name i =
     (if i = 0 then ''L1'' else if i = 1 then ''L2'' else if i = 2 then ''L3''
      else if i = 3 then ''L4'' else ''L?'')"

function summary_loop ::
  "Boundary list \<Rightarrow> nat \<Rightarrow> nat \<Rightarrow> (string \<times> nat \<times> real) list
     \<Rightarrow> (string \<times> nat \<times> real) list option" where
  "summary_loop bounds nb i printed =
     (if i < nb
      then (if i < length bounds
            then summary_loop bounds nb (i + 1)
                   (printed @ [(level_name i, approx_size_bytes (bounds ! i), ratio (bounds ! i))])
            else None)
      else Some printed)"
  by pat_completeness auto
termination
  by (relation "measure (\<lambda>(bounds, nb, i, printed). nb - i)") auto

declare summary_loop.simps [simp del]

text \<open>Sample curves: the nine samples of the specification's scenario, and a staircase.\<close>

definition synthetic_curve :: "Sample list" where
  "synthetic_curve = mk_samples
     [(4096, 1), (8192, 1), (16384, 1), (32768, 1), (65536, 2.5), (131072, 2.6),
      (262144, 2.7), (1048576, 8), (4194304, 8.2)]"

definition staircase :: "Sample list" where
  "staircase = mk_samples
     [(4096, 1), (5120, 1), (8192, 2), (10240, 2), (16384, 4), (20480, 4), (32768, 8), (40960, 8),
      (65536, 16), (81920, 16), (131072, 32), (163840, 32), (262144, 64), (327680, 64),
      (524288, 128), (655360, 128), (1048576, 256), (1310720, 256), (2097152, 512), (2621440, 512)]"

lemmas db_eval = detect_boundaries_def mk_samples_def bounds0_def db_step_def
  jump_threshold_def min_plateau_points_def int_of_size_def Let_def db_loop.simps

section \<open>Driver\<close>

text \<open>
  The command line, after \<^verbatim>\<open>strcmp\<close> has recognised a flag and \<^verbatim>\<open>strtoull\<close> or
  \<^verbatim>\<open>strtoul\<close> has read its number (a value below \<open>2 ^ 64\<close>).
\<close>

datatype arg =
  MinBytes nat | MaxBytes nat | NodeStride nat | TargetMs nat | Repeats nat
  | PatternName string | PatternArg nat | NoTable | Help






text \<open>
  The seed of \<^verbatim>\<open>main\<close>: \<open>mix\<close> is \<^verbatim>\<open>now_ns() ^ (uintptr_t)&rng ^ getpid()\<close>, which
  the environment chooses.
\<close>

definition seed_rng :: "u64 \<Rightarrow> Random64" where
  "seed_rng mix = (if mix = 0 then 0x123456789abcdef else mix)"




lemmas gen_eval = generate_sizes_def sizes_loop.simps sizes_body_def emit_def double_up_to.simps
  SIZE_MAX_def Let_def

section \<open>Properties of the boundary detector\<close>

text \<open>
  Claim C1 (the returned count never exceeds the capacity of the output array, and the
  summary loop reads only entries that were written). The code guards the write with
  \<^verbatim>\<open>found < out_cap\<close> but increments and returns \<^verbatim>\<open>found\<close> all the same: on a
  staircase of twenty samples whose latency doubles every second sample (all values are
  powers of two, so the arithmetic is exact in IEEE doubles as well), the call with
  capacity 8 returns 9, the eight entries hold the first eight steps, and the summary
  loop of \<^verbatim>\<open>main\<close> reads \<^verbatim>\<open>bounds[8]\<close>, past the end of the array.
\<close>

theorem detect_boundaries_count_exceeds_capacity:
  "detect_boundaries staircase 20 bounds0 8 =
     Some (9, [\<lparr> approx_size_bytes = 5120, ratio = 2 \<rparr>, \<lparr> approx_size_bytes = 10240, ratio = 2 \<rparr>,
               \<lparr> approx_size_bytes = 20480, ratio = 2 \<rparr>, \<lparr> approx_size_bytes = 40960, ratio = 2 \<rparr>,
               \<lparr> approx_size_bytes = 81920, ratio = 2 \<rparr>, \<lparr> approx_size_bytes = 163840, ratio = 2 \<rparr>,
               \<lparr> approx_size_bytes = 327680, ratio = 2 \<rparr>, \<lparr> approx_size_bytes = 655360, ratio = 2 \<rparr>])
   \<and> summary_loop
         [\<lparr> approx_size_bytes = 5120, ratio = 2 \<rparr>, \<lparr> approx_size_bytes = 10240, ratio = 2 \<rparr>,
          \<lparr> approx_size_bytes = 20480, ratio = 2 \<rparr>, \<lparr> approx_size_bytes = 40960, ratio = 2 \<rparr>,
          \<lparr> approx_size_bytes = 81920, ratio = 2 \<rparr>, \<lparr> approx_size_bytes = 163840, ratio = 2 \<rparr>,
          \<lparr> approx_size_bytes = 327680, ratio = 2 \<rparr>, \<lparr> approx_size_bytes = 655360, ratio = 2 \<rparr>]
         9 0 [] = None"
proof
  show "detect_boundaries staircase 20 bounds0 8 =
     Some (9, [\<lparr> approx_size_bytes = 5120, ratio = 2 \<rparr>, \<lparr> approx_size_bytes = 10240, ratio = 2 \<rparr>,
               \<lparr> approx_size_bytes = 20480, ratio = 2 \<rparr>, \<lparr> approx_size_bytes = 40960, ratio = 2 \<rparr>,
               \<lparr> approx_size_bytes = 81920, ratio = 2 \<rparr>, \<lparr> approx_size_bytes = 163840, ratio = 2 \<rparr>,
               \<lparr> approx_size_bytes = 327680, ratio = 2 \<rparr>, \<lparr> approx_size_bytes = 655360, ratio = 2 \<rparr>])"
    by (simp add: db_eval staircase_def)
next
  show "summary_loop
         [\<lparr> approx_size_bytes = 5120, ratio = 2 \<rparr>, \<lparr> approx_size_bytes = 10240, ratio = 2 \<rparr>,
          \<lparr> approx_size_bytes = 20480, ratio = 2 \<rparr>, \<lparr> approx_size_bytes = 40960, ratio = 2 \<rparr>,
          \<lparr> approx_size_bytes = 81920, ratio = 2 \<rparr>, \<lparr> approx_size_bytes = 163840, ratio = 2 \<rparr>,
          \<lparr> approx_size_bytes = 327680, ratio = 2 \<rparr>, \<lparr> approx_size_bytes = 655360, ratio = 2 \<rparr>]
         9 0 [] = None"
    by (simp add: summary_loop.simps)
qed

text \<open>
  Claim C6 (the synthetic nine-sample curve). \<^verbatim>\<open>detect_boundaries\<close> returns exactly two
  boundaries: the first at 32 KiB, the last size before the step to 2.5, with ratio 2.5;
  the second at 256 KiB, the last size before the step to 8.0, with ratio
  \<open>8 / 2.6 = 40 / 13\<close>, which is within 0.1 of 3.0. The other six entries of the
  array are left as they were, and the summary loop prints the two as L1 and L2.
\<close>

theorem detect_boundaries_synthetic_curve:
  "detect_boundaries synthetic_curve (length synthetic_curve) bounds0 8 =
     Some (2, [\<lparr> approx_size_bytes = 32 * 1024, ratio = 5 / 2 \<rparr>,
               \<lparr> approx_size_bytes = 256 * 1024, ratio = 40 / 13 \<rparr>] @ drop 2 bounds0)
   \<and> \<bar>40 / 13 - (3 :: real)\<bar> < 1 / 10
   \<and> summary_loop
         ([\<lparr> approx_size_bytes = 32 * 1024, ratio = 5 / 2 \<rparr>,
           \<lparr> approx_size_bytes = 256 * 1024, ratio = 40 / 13 \<rparr>] @ drop 2 bounds0) 2 0 []
       = Some [(''L1'', 32 * 1024, 5 / 2), (''L2'', 256 * 1024, 40 / 13)]"
proof (intro conjI)
  have len: "length synthetic_curve = 9"
    by (simp add: synthetic_curve_def mk_samples_def)
  show "detect_boundaries synthetic_curve (length synthetic_curve) bounds0 8 =
     Some (2, [\<lparr> approx_size_bytes = 32 * 1024, ratio = 5 / 2 \<rparr>,
               \<lparr> approx_size_bytes = 256 * 1024, ratio = 40 / 13 \<rparr>] @ drop 2 bounds0)"
    unfolding len by (simp add: db_eval synthetic_curve_def)
  show "\<bar>40 / 13 - (3 :: real)\<bar> < 1 / 10"
    by simp
  show "summary_loop
         ([\<lparr> approx_size_bytes = 32 * 1024, ratio = 5 / 2 \<rparr>,
           \<lparr> approx_size_bytes = 256 * 1024, ratio = 40 / 13 \<rparr>] @ drop 2 bounds0) 2 0 []
       = Some [(''L1'', 32 * 1024, 5 / 2), (''L2'', 256 * 1024, 40 / 13)]"
    by (simp add: summary_loop.simps level_name_def bounds0_def)
qed

section \<open>Properties of the PRNG\<close>

text \<open>
  The raw draws on which \<^verbatim>\<open>rng_uniform(r, n)\<close> returns \<open>v\<close>: those that pass the test
  \<^verbatim>\<open>x >= threshold\<close> and leave the remainder \<open>v\<close>.
\<close>

definition accepted_draws :: "u64 \<Rightarrow> u64 \<Rightarrow> u64 set" where
  "accepted_draws n v = {x. rng_threshold n \<le> x \<and> x mod n = v}"

lemma xor_zero_eq: "x XOR y = 0 \<Longrightarrow> x = (y::u64)"
proof -
  assume "x XOR y = 0"
  then have "x XOR (x XOR y) = x" by simp
  then show ?thesis by (simp add: xor.assoc [symmetric])
qed

lemma bit_shift_chain:
  fixes d :: u64
  assumes "0 < k" and "\<And>n. bit d n \<longleftrightarrow> bit d (n + k)"
  shows "d = 0"
proof -
  have step: "bit d n \<longleftrightarrow> bit d (n + j * k)" for n j
  proof (induction j)
    case 0 show ?case by simp
  next
    case (Suc j)
    have "bit d (n + j * k) \<longleftrightarrow> bit d (n + j * k + k)" by (rule assms(2))
    with Suc show ?case by (simp add: ac_simps)
  qed
  have "\<not> bit d n" for n
  proof -
    have "64 \<le> n + 64 * k" using assms(1) by simp
    then have "\<not> bit d (n + 64 * k)" using bit_imp_le_length [of d "n + 64 * k"] by auto
    with step [of n 64] show ?thesis by simp
  qed
  then show ?thesis by (simp add: bit_eq_iff)
qed

lemma drop_fix: "0 < k \<Longrightarrow> d = drop_bit k d \<Longrightarrow> d = (0::u64)"
proof -
  assume k: "0 < k" and d: "d = drop_bit k d"
  have "bit d n \<longleftrightarrow> bit d (n + k)" for n
  proof -
    have "bit d n \<longleftrightarrow> bit (drop_bit k d) n" using d by simp
    then show ?thesis by (simp add: bit_drop_bit_eq add.commute)
  qed
  with k show ?thesis by (rule bit_shift_chain)
qed

lemma push_fix: "0 < k \<Longrightarrow> d = push_bit k d \<Longrightarrow> d = (0::u64)"
proof -
  assume k: "0 < k" and d: "d = push_bit k d"
  have low: "\<not> bit d n" for n
  proof (induction n rule: less_induct)
    case (less n)
    have "bit d n \<longleftrightarrow> bit (push_bit k d) n" using d by simp
    also have "\<dots> \<longrightarrow> k \<le> n \<and> bit d (n - k)"
      by (simp add: bit_push_bit_iff)
    finally show ?case using less [of "n - k"] k by auto
  qed
  then show ?thesis by (simp add: bit_eq_iff)
qed

lemma inj_xor_drop: "0 < k \<Longrightarrow> inj (\<lambda>x::u64. x XOR drop_bit k x)"
proof (rule injI)
  fix x y :: u64
  assume k: "0 < k" and e: "x XOR drop_bit k x = y XOR drop_bit k y"
  have "bit (x XOR y) n \<longleftrightarrow> bit (drop_bit k (x XOR y)) n" for n
    using arg_cong [OF e, of "\<lambda>w. bit w n"]
    by (simp add: bit_xor_iff bit_drop_bit_eq) blast
  then have "x XOR y = drop_bit k (x XOR y)" by (rule bit_eqI)
  then have "x XOR y = 0" using k drop_fix by blast
  then show "x = y" by (rule xor_zero_eq)
qed

lemma inj_xor_push: "0 < k \<Longrightarrow> inj (\<lambda>x::u64. x XOR push_bit k x)"
proof (rule injI)
  fix x y :: u64
  assume k: "0 < k" and e: "x XOR push_bit k x = y XOR push_bit k y"
  have "bit (x XOR y) n \<longleftrightarrow> bit (push_bit k (x XOR y)) n" for n
    using arg_cong [OF e, of "\<lambda>w. bit w n"]
    by (simp add: bit_xor_iff bit_push_bit_iff) blast
  then have "x XOR y = push_bit k (x XOR y)" by (rule bit_eqI)
  then have "x XOR y = 0" using k push_fix by blast
  then show "x = y" by (rule xor_zero_eq)
qed

lemma xorshift_comp:
  "xorshift = (\<lambda>x. x XOR drop_bit 27 x) \<circ> (\<lambda>x. x XOR push_bit 25 x) \<circ> (\<lambda>x. x XOR drop_bit 12 x)"
  by (simp add: fun_eq_iff xorshift_def Let_def)

lemma inj_xorshift: "inj xorshift"
  unfolding xorshift_comp by (intro inj_compose inj_xor_drop inj_xor_push) simp_all

lemma bij_xorshift: "bij xorshift"
  using inj_xorshift by (simp add: bij_def finite_UNIV_inj_surj)

lemma xorshift_0: "xorshift 0 = 0"
  by (simp add: xorshift_def)

lemma xorshift_eq_0_iff: "xorshift s = 0 \<longleftrightarrow> s = 0"
  using inj_xorshift xorshift_0 by (metis injD)

lemma rng_next_state: "snd (rng_next r) = xorshift r"
  by (simp add: rng_next_def Let_def)

lemma rng_next_nonzero: "r \<noteq> 0 \<Longrightarrow> snd (rng_next r) \<noteq> 0"
  by (simp add: rng_next_state xorshift_eq_0_iff)

lemma rng_next_iterate_nonzero: "r \<noteq> 0 \<Longrightarrow> ((\<lambda>r. snd (rng_next r)) ^^ k) r \<noteq> 0"
  by (induction k) (simp_all add: rng_next_nonzero)

text \<open>What a result of the rejection loop is: an accepted draw of a later state.\<close>

definition draw_of :: "u64 \<Rightarrow> u64 \<Rightarrow> Random64 \<Rightarrow> u64 \<times> Random64 \<Rightarrow> bool" where
  "draw_of threshold n r res \<longleftrightarrow>
     (\<exists>k. snd res = (xorshift ^^ Suc k) r \<and> threshold \<le> snd res * 2685821657736338717
         \<and> fst res = (snd res * 2685821657736338717) mod n)"

lemma rng_uniform_loop_draw:
  "rng_uniform_loop threshold n r = Some res \<Longrightarrow> draw_of threshold n r res"
proof (erule rng_uniform_loop.raw_induct [where P = draw_of, rotated], goal_cases)
  case (1 loop threshold n r res)
  show ?case unfolding draw_of_def
  proof (cases "threshold \<le> xorshift r * 2685821657736338717")
    case True
    with 1(2) have "res = ((xorshift r * 2685821657736338717) mod n, xorshift r)"
      by (simp add: rng_next_def Let_def)
    with True have "snd res = (xorshift ^^ Suc 0) r \<and> threshold \<le> snd res * 2685821657736338717
         \<and> fst res = (snd res * 2685821657736338717) mod n" by simp
    then show "\<exists>k. snd res = (xorshift ^^ Suc k) r \<and> threshold \<le> snd res * 2685821657736338717
         \<and> fst res = (snd res * 2685821657736338717) mod n" by blast
  next
    case False
    with 1(2) have "loop threshold n (xorshift r) = Some res"
      by (simp add: rng_next_def Let_def)
    from 1(1) [OF this] obtain k where
      k: "snd res = (xorshift ^^ Suc k) (xorshift r)"
         "threshold \<le> snd res * 2685821657736338717"
         "fst res = (snd res * 2685821657736338717) mod n" unfolding draw_of_def by blast
    have "(xorshift ^^ Suc k) (xorshift r) = (xorshift ^^ Suc (Suc k)) r"
      by (simp only: funpow_Suc_right o_apply)
    with k have "snd res = (xorshift ^^ Suc (Suc k)) r \<and> threshold \<le> snd res * 2685821657736338717
         \<and> fst res = (snd res * 2685821657736338717) mod n" by simp
    then show "\<exists>k. snd res = (xorshift ^^ Suc k) r \<and> threshold \<le> snd res * 2685821657736338717
         \<and> fst res = (snd res * 2685821657736338717) mod n" by blast
  qed
qed

lemma rng_uniform_loop_sound:
  "rng_uniform_loop threshold n r = Some res \<Longrightarrow>
     \<exists>k. snd res = (xorshift ^^ Suc k) r \<and> threshold \<le> snd res * 2685821657736338717
         \<and> fst res = (snd res * 2685821657736338717) mod n"
  using rng_uniform_loop_draw [of threshold n r res] by (simp add: draw_of_def)

lemma xorshift_iterate_nonzero: "r \<noteq> 0 \<Longrightarrow> (xorshift ^^ k) r \<noteq> 0"
  by (induction k) (simp_all add: xorshift_eq_0_iff)

lemma rng_uniform_nonzero:
  assumes "rng_uniform r n = Some (v, r')" and "r \<noteq> 0"
  shows "r' \<noteq> 0"
proof -
  from assms(1) have "rng_uniform_loop (rng_threshold n) n r = Some (v, r')"
    by (simp add: rng_uniform_def split: if_splits)
  from rng_uniform_loop_sound [OF this] obtain k where "r' = (xorshift ^^ Suc k) r" by auto
  with assms(2) show ?thesis using xorshift_iterate_nonzero [of r "Suc k"] by simp
qed


lemma seed_rng_nonzero: "seed_rng mix \<noteq> 0"
  by (simp add: seed_rng_def)

lemma shuffle_loop_nonzero:
  "shuffle_loop order i rng = Some (order', rng') \<Longrightarrow> rng \<noteq> 0 \<Longrightarrow> rng' \<noteq> 0"
proof (induction order i rng rule: shuffle_loop.induct)
  case (1 order i rng)
  show ?case
  proof (cases "i > 0")
    case True
    with "1.prems"(1) obtain j rng1 where
      u: "rng_uniform rng (of_nat (i + 1)) = Some (j, rng1)" and
      s: "shuffle_loop (order[i := order ! unat j, unat j := order ! i]) (i - 1) rng1 = Some (order', rng')"
      by (subst (asm) shuffle_loop.simps) (auto split: option.splits)
    from rng_uniform_nonzero [OF u "1.prems"(2)] have "rng1 \<noteq> 0" .
    with "1.IH" [OF True u refl s] show ?thesis by simp
  next
    case False
    with "1.prems" show ?thesis by (subst (asm) shuffle_loop.simps) simp
  qed
qed

lemma build_order_switch_nonzero:
  "build_order_switch alloc_ok order n rng p arg = Some (order', rng') \<Longrightarrow> rng \<noteq> 0 \<Longrightarrow> rng' \<noteq> 0"
  by (auto simp: build_order_switch_def build_order_random_def split: if_splits
           dest: shuffle_loop_nonzero)






lemma rng_uniform_accepts:
  assumes "n \<noteq> 0" and "fst (rng_next r) \<in> accepted_draws n v"
  shows "rng_uniform r n = Some (v, snd (rng_next r))"
  using assms
  by (subst rng_uniform_def, subst rng_uniform_loop.simps)
     (auto simp add: accepted_draws_def split: prod.splits)

lemma rng_uniform_rejects:
  assumes "n \<noteq> 0" and "fst (rng_next r) < rng_threshold n"
  shows "rng_uniform r n = rng_uniform (snd (rng_next r)) n"
  using assms
  by (subst rng_uniform_def, subst rng_uniform_loop.simps)
     (auto simp add: rng_uniform_def split: prod.splits)


text \<open>
  Claim C10 (the state of the generator is never zero). The update of the state in
  \<^verbatim>\<open>rng_next\<close> is a bijection of the 64-bit words that maps 0 to 0, so 0 is the only
  state with the successor 0; \<^verbatim>\<open>main\<close> never seeds with 0; hence every state reached
  from the seed by calls of \<^verbatim>\<open>rng_next\<close> is non-zero, and so is the state that a call of
  \<^verbatim>\<open>rng_uniform\<close>, or the pattern switch with its shuffle, hands back.
\<close>

theorem rng_state_never_zero:
  "bij xorshift
   \<and> xorshift 0 = 0
   \<and> (xorshift s = 0 \<longleftrightarrow> s = 0)
   \<and> snd (rng_next s) = xorshift s
   \<and> seed_rng mix \<noteq> 0
   \<and> ((\<lambda>r. snd (rng_next r)) ^^ k) (seed_rng mix) \<noteq> 0
   \<and> (r \<noteq> 0 \<longrightarrow> rng_uniform r n = Some (v, r') \<longrightarrow> r' \<noteq> 0)
   \<and> (r \<noteq> 0 \<longrightarrow> build_order_switch alloc_ok order num_nodes r p parg = Some (order', r')
        \<longrightarrow> r' \<noteq> 0)"
  using bij_xorshift xorshift_0 xorshift_eq_0_iff [of s] rng_next_state [of s]
    seed_rng_nonzero [of mix] rng_next_iterate_nonzero [OF seed_rng_nonzero, of k mix]
    rng_uniform_nonzero [of r n v r']
    build_order_switch_nonzero [of alloc_ok order num_nodes r p parg order' r']
  by blast

lemma rng_uniform_seed_1000:
  "rng_uniform 0x123456789abcdef 1000 = Some (916, 12005736692549773564)"
  by (simp add: rng_uniform_def rng_threshold_def rng_uniform_loop.simps rng_next_def
      xorshift_def Let_def)

theorem rng_state_never_zero_witness:
  "seed_rng 0 = 0x123456789abcdef
   \<and> rng_uniform (seed_rng 0) 1000 = Some (916, 12005736692549773564)
   \<and> (12005736692549773564 :: u64) \<noteq> 0
   \<and> snd (rng_next (seed_rng 0)) = 12005736692549773564"
  using rng_state_never_zero [of 0 0 0 "seed_rng 0" 1000 916 12005736692549773564]
    rng_uniform_seed_1000
  by (simp add: seed_rng_def rng_next_def xorshift_def Let_def)

section \<open>Properties of the order builders\<close>

text \<open>
  A list is a permutation of \<open>[0, n)\<close> when it has \<open>n\<close> entries, no entry twice, and
  exactly the numbers below \<open>n\<close> as entries: each index appears exactly once.
\<close>

definition is_permutation :: "nat \<Rightarrow> nat list \<Rightarrow> bool" where
  "is_permutation n xs \<longleftrightarrow> length xs = n \<and> distinct xs \<and> set xs = {0..<n}"



lemma is_permutation_by_card:
  assumes "length xs = n" and "distinct xs" and "set xs \<subseteq> {0..<n}"
  shows "is_permutation n xs"
proof -
  have "card (set xs) = n" using assms(1,2) by (simp add: distinct_card)
  then have "set xs = {0..<n}"
    using assms(3) by (intro card_subset_eq) simp_all
  with assms show ?thesis by (simp add: is_permutation_def)
qed


lemma take_Suc_update: "i < length xs \<Longrightarrow> take (Suc i) (xs[i := v]) = take i xs @ [v]"
  by (simp add: take_Suc_conv_app_nth)

subsection \<open>Sequential and reverse\<close>

lemma build_order_sequential_loop_eq:
  "i \<le> n \<Longrightarrow> n \<le> length order \<Longrightarrow>
     build_order_sequential_loop order n i = take i order @ [i..<n] @ drop n order"
proof (induction order n i rule: build_order_sequential_loop.induct)
  case (1 order n i)
  show ?case
  proof (cases "i < n")
    case True
    have len: "i < length order" using True "1.prems" by simp
    have "build_order_sequential_loop order n i
            = build_order_sequential_loop (order[i := i]) n (i + 1)"
      using True by (subst build_order_sequential_loop.simps) simp
    also have "\<dots> = take (i + 1) (order[i := i]) @ [i + 1..<n] @ drop n (order[i := i])"
      using True "1.prems" by (intro "1.IH") simp_all
    also have "\<dots> = take i order @ [i..<n] @ drop n order"
      using True len by (simp add: take_Suc_update upt_conv_Cons)
    finally show ?thesis .
  next
    case False
    with "1.prems" have "i = n" by simp
    then show ?thesis by (subst build_order_sequential_loop.simps) simp
  qed
qed

lemma build_order_sequential_eq:
  "n \<le> length order \<Longrightarrow> build_order_sequential order n = [0..<n] @ drop n order"
  by (simp add: build_order_sequential_def build_order_sequential_loop_eq)





subsection \<open>Interleave\<close>








subsection \<open>Gray code\<close>










subsection \<open>Bit reversal\<close>


















subsection \<open>Stride\<close>

text \<open>
  The stride order in the words of the specification: start from index 0; repeatedly
  advance by the step; when the index reached is already visited (the orbit has closed),
  restart from the first index that is not yet visited.
\<close>

definition first_unvisited :: "nat \<Rightarrow> nat list \<Rightarrow> nat" where
  "first_unvisited n emitted = hd (filter (\<lambda>j. j \<notin> set emitted) [0..<n])"

definition stride_next :: "nat \<Rightarrow> (nat \<Rightarrow> nat) \<Rightarrow> nat list \<Rightarrow> nat" where
  "stride_next n st emitted =
     (if st (last emitted) \<notin> set emitted then st (last emitted) else first_unvisited n emitted)"

fun orbit_list :: "nat \<Rightarrow> (nat \<Rightarrow> nat) \<Rightarrow> nat \<Rightarrow> nat list \<Rightarrow> nat list" where
  "orbit_list n st 0 emitted = emitted"
| "orbit_list n st (Suc m) emitted = orbit_list n st m (emitted @ [stride_next n st emitted])"

definition stride_prefix :: "nat \<Rightarrow> (nat \<Rightarrow> nat) \<Rightarrow> nat \<Rightarrow> nat list" where
  "stride_prefix n st c = (if c = 0 then [] else orbit_list n st (c - 1) [0])"

definition stride_spec :: "nat \<Rightarrow> nat \<Rightarrow> nat list" where
  "stride_spec n k = stride_prefix n (\<lambda>i. (i + k) mod n) n"

lemma orbit_list_Suc_end:
  "orbit_list n st (Suc m) e = orbit_list n st m e @ [stride_next n st (orbit_list n st m e)]"
proof (induction m arbitrary: e)
  case 0
  show ?case by simp
next
  case (Suc m)
  show ?case using Suc.IH [of "e @ [stride_next n st e]"] by simp
qed

lemma stride_prefix_Suc:
  "stride_prefix n st (Suc c) =
     stride_prefix n st c @ [if c = 0 then 0 else stride_next n st (stride_prefix n st c)]"
proof (cases c)
  case 0
  then show ?thesis by (simp add: stride_prefix_def)
next
  case (Suc m)
  then show ?thesis by (simp add: stride_prefix_def orbit_list_Suc_end del: orbit_list.simps)
qed

lemma first_unvisited_eq:
  assumes "s < n" and "s \<notin> set e" and "\<And>j. j < s \<Longrightarrow> j \<in> set e"
  shows "first_unvisited n e = s"
proof -
  have "[0..<n] = [0..<s] @ s # [Suc s..<n]"
    using assms(1) by (metis le_add1 less_imp_add_positive upt_add_eq_append upt_conv_Cons plus_nat.add_0 less_or_eq_imp_le upt_conv_Cons)
  moreover have "filter (\<lambda>j. j \<notin> set e) [0..<s] = []"
    using assms(3) by (simp add: filter_empty_conv)
  ultimately show ?thesis using assms(2) by (simp add: first_unvisited_def)
qed

lemma stride_skip_spec:
  "start \<le> length visited \<Longrightarrow>
     start \<le> stride_skip visited start \<and> stride_skip visited start \<le> length visited
     \<and> (\<forall>j. start \<le> j \<and> j < stride_skip visited start \<longrightarrow> visited ! j)
     \<and> (stride_skip visited start < length visited \<longrightarrow> \<not> visited ! stride_skip visited start)"
proof (induction visited start rule: stride_skip.induct)
  case (1 visited start)
  show ?case
  proof (cases "start < length visited \<and> visited ! start")
    case True
    then have e: "stride_skip visited start = stride_skip visited (start + 1)"
      by (subst stride_skip.simps) simp
    have "start + 1 \<le> length visited" using True by simp
    from "1.IH" [OF True this] have
      ih: "start + 1 \<le> stride_skip visited (start + 1)"
          "stride_skip visited (start + 1) \<le> length visited"
          "\<forall>j. start + 1 \<le> j \<and> j < stride_skip visited (start + 1) \<longrightarrow> visited ! j"
          "stride_skip visited (start + 1) < length visited
             \<longrightarrow> \<not> visited ! stride_skip visited (start + 1)" by blast+
    have "\<forall>j. start \<le> j \<and> j < stride_skip visited (start + 1) \<longrightarrow> visited ! j"
    proof (intro allI impI)
      fix j assume j: "start \<le> j \<and> j < stride_skip visited (start + 1)"
      show "visited ! j"
      proof (cases "j = start")
        case True
        then show ?thesis using \<open>start < length visited \<and> visited ! start\<close> by simp
      next
        case False
        with j have "start + 1 \<le> j" by simp
        with j ih(3) show ?thesis by blast
      qed
    qed
    with ih show ?thesis unfolding e by simp
  next
    case False
    then have e: "stride_skip visited start = start"
      by (subst stride_skip.simps) auto
    show ?thesis unfolding e using "1.prems" False by auto
  qed
qed

text \<open>
  The state of the stride loops: the first \<open>cnt\<close> entries of \<open>order\<close> are the first
  \<open>cnt\<close> entries of the specified order, they are distinct indices below \<open>n\<close>, and
  \<open>visited\<close> marks exactly them.
\<close>

definition stride_inv :: "nat \<Rightarrow> (nat \<Rightarrow> nat) \<Rightarrow> nat list \<Rightarrow> bool list \<Rightarrow> nat \<Rightarrow> bool" where
  "stride_inv n st order visited cnt \<longleftrightarrow>
     length visited = n \<and> cnt \<le> n \<and> n \<le> length order
     \<and> take cnt order = stride_prefix n st cnt
     \<and> distinct (take cnt order)
     \<and> (\<forall>j<n. visited ! j \<longleftrightarrow> j \<in> set (take cnt order))
     \<and> set (take cnt order) \<subseteq> {0..<n}"

lemma stride_inv_room:
  assumes "stride_inv n st order visited cnt" and "i < n" and "\<not> visited ! i"
  shows "cnt < n"
proof -
  from assms have d: "distinct (take cnt order)" and s: "set (take cnt order) \<subseteq> {0..<n}"
    and i: "i \<notin> set (take cnt order)" and l: "cnt \<le> n" "n \<le> length order"
    by (auto simp: stride_inv_def)
  have "set (take cnt order) \<subseteq> {0..<n} - {i}" using s i by auto
  then have "card (set (take cnt order)) \<le> card ({0..<n} - {i})"
    by (intro card_mono) simp_all
  moreover have "card (set (take cnt order)) = cnt" using d l by (simp add: distinct_card)
  moreover have "card ({0..<n} - {i}) = n - 1" using assms(2) by simp
  ultimately show ?thesis using assms(2) by simp
qed

lemma stride_inv_emit:
  assumes inv: "stride_inv n st order visited cnt" and i: "i < n" "\<not> visited ! i"
    and first: "cnt = 0 \<longrightarrow> i = 0"
    and nxt: "0 < cnt \<longrightarrow> i = stride_next n st (take cnt order)"
  shows "stride_inv n st (order[cnt := i]) (visited[i := True]) (cnt + 1)
         \<and> take (cnt + 1) (order[cnt := i]) = take cnt order @ [i]"
proof -
  have room: "cnt < n" using inv i by (rule stride_inv_room)
  from inv have lv: "length visited = n" and lo: "n \<le> length order"
    and pre: "take cnt order = stride_prefix n st cnt" and d: "distinct (take cnt order)"
    and vis: "\<forall>j<n. visited ! j \<longleftrightarrow> j \<in> set (take cnt order)"
    and sub: "set (take cnt order) \<subseteq> {0..<n}"
    unfolding stride_inv_def by blast+
  have tk: "take (cnt + 1) (order[cnt := i]) = take cnt order @ [i]"
    using room lo by (simp add: take_Suc_update)
  have fresh: "i \<notin> set (take cnt order)" using vis i by simp
  have "stride_prefix n st (Suc cnt) = take cnt order @ [i]"
    using first nxt by (simp add: stride_prefix_Suc pre [symmetric])
  moreover have "\<forall>j<n. (visited[i := True]) ! j \<longleftrightarrow> j \<in> set (take cnt order @ [i])"
    using vis lv i by (auto simp add: nth_list_update)
  ultimately have "stride_inv n st (order[cnt := i]) (visited[i := True]) (cnt + 1)"
    unfolding stride_inv_def tk using lv lo room d fresh sub i by simp
  with tk show ?thesis by simp
qed

lemma stride_walk_inv:
  "stride_inv n st order visited cnt \<Longrightarrow>
   (\<And>j. j < n \<Longrightarrow> ((j + k) mod 2 ^ 64) mod n = st j) \<Longrightarrow>
   i < n \<Longrightarrow> (cnt = 0 \<longrightarrow> i = 0) \<Longrightarrow>
   (0 < cnt \<longrightarrow> \<not> visited ! i \<longrightarrow> i = stride_next n st (take cnt order)) \<Longrightarrow>
   stride_walk k order visited cnt i = (order', visited', cnt') \<Longrightarrow>
     stride_inv n st order' visited' cnt' \<and> drop n order' = drop n order \<and> cnt \<le> cnt'
     \<and> (\<forall>j<n. visited ! j \<longrightarrow> visited' ! j)
     \<and> (\<not> visited ! i \<longrightarrow> cnt < cnt' \<and> st (last (take cnt' order')) \<in> set (take cnt' order'))"
proof (induction k order visited cnt i rule: stride_walk.induct)
  case (1 k order visited cnt i)
  note inv = "1.prems"(1) and step = "1.prems"(2) and i = "1.prems"(3)
    and first = "1.prems"(4) and nxt = "1.prems"(5) and res = "1.prems"(6)
  have lv: "length visited = n" using inv by (simp add: stride_inv_def)
  show ?case
  proof (cases "visited ! i")
    case True
    then have "stride_walk k order visited cnt i = (order, visited, cnt)"
      by (subst stride_walk.simps) simp
    with res inv True show ?thesis by simp
  next
    case False
    let ?order1 = "order[cnt := i]" and ?visited1 = "visited[i := True]"
    let ?i1 = "((i + k) mod 2 ^ 64) mod length visited"
    have cond: "i < length visited \<and> \<not> visited ! i" using False i lv by simp
    have room: "cnt < n" using inv i False by (rule stride_inv_room)
    have emit: "stride_inv n st ?order1 ?visited1 (cnt + 1)"
      and tk: "take (cnt + 1) ?order1 = take cnt order @ [i]"
      using stride_inv_emit [OF inv i False first] nxt False by simp_all
    have i1: "?i1 = st i" using step [OF i] lv by simp
    have i1n: "?i1 < n" using i lv by simp
    have res1: "stride_walk k ?order1 ?visited1 (cnt + 1) ?i1 = (order', visited', cnt')"
      using res cond by (subst (asm) stride_walk.simps) simp
    have vis1: "\<forall>j<n. ?visited1 ! j \<longleftrightarrow> j \<in> set (take (cnt + 1) ?order1)"
      using emit by (simp add: stride_inv_def)
    have nxt1: "0 < cnt + 1 \<longrightarrow> \<not> ?visited1 ! ?i1
                  \<longrightarrow> ?i1 = stride_next n st (take (cnt + 1) ?order1)"
    proof (intro impI)
      assume "\<not> ?visited1 ! ?i1"
      then have "?i1 \<notin> set (take (cnt + 1) ?order1)" using vis1 i1n by simp
      then show "?i1 = stride_next n st (take (cnt + 1) ?order1)"
        unfolding tk using i1 by (simp add: stride_next_def)
    qed
    have ih: "stride_inv n st order' visited' cnt' \<and> drop n order' = drop n ?order1
        \<and> cnt + 1 \<le> cnt' \<and> (\<forall>j<n. ?visited1 ! j \<longrightarrow> visited' ! j)
        \<and> (\<not> ?visited1 ! ?i1 \<longrightarrow> cnt + 1 < cnt'
              \<and> st (last (take cnt' order')) \<in> set (take cnt' order'))"
      by (rule "1.IH" [OF cond emit step i1n _ nxt1 res1]) simp_all
    have mono: "\<forall>j<n. visited ! j \<longrightarrow> visited' ! j"
    proof (intro allI impI)
      fix j assume "j < n" "visited ! j"
      then have "?visited1 ! j" using lv i by (cases "i = j") simp_all
      with ih \<open>j < n\<close> show "visited' ! j" by blast
    qed
    have closed: "st (last (take cnt' order')) \<in> set (take cnt' order')"
    proof (cases "?visited1 ! ?i1")
      case False
      with ih show ?thesis by blast
    next
      case True
      then have "stride_walk k ?order1 ?visited1 (cnt + 1) ?i1 = (?order1, ?visited1, cnt + 1)"
        by (subst stride_walk.simps) simp
      with res1 have e: "order' = ?order1" "cnt' = cnt + 1" by simp_all
      have "?i1 \<in> set (take (cnt + 1) ?order1)" using True vis1 i1n by simp
      then show ?thesis unfolding e tk using i1 by simp
    qed
    have "drop n ?order1 = drop n order" using room by simp
    with ih mono closed False show ?thesis by simp
  qed
qed

lemma stride_inv_full:
  assumes "stride_inv n st order visited cnt" and "\<And>j. j < n \<Longrightarrow> visited ! j"
  shows "cnt = n"
proof -
  from assms(1) have d: "distinct (take cnt order)" and l: "cnt \<le> n" "n \<le> length order"
    and vis: "\<forall>j<n. visited ! j \<longleftrightarrow> j \<in> set (take cnt order)"
    unfolding stride_inv_def by blast+
  have "{0..<n} \<subseteq> set (take cnt order)" using vis assms(2) by auto
  then have "card {0..<n} \<le> card (set (take cnt order))" by (intro card_mono) simp_all
  moreover have "card (set (take cnt order)) = cnt" using d l by (simp add: distinct_card)
  ultimately show ?thesis using l by simp
qed

lemma stride_inv_done:
  assumes "stride_inv n st order visited n"
  shows "take n order = stride_prefix n st n \<and> is_permutation n (take n order)"
proof -
  from assms have pre: "take n order = stride_prefix n st n" and d: "distinct (take n order)"
    and sub: "set (take n order) \<subseteq> {0..<n}" and l: "n \<le> length order"
    unfolding stride_inv_def by blast+
  have "is_permutation n (take n order)"
    using l d sub by (intro is_permutation_by_card) simp_all
  with pre show ?thesis by simp
qed

lemma stride_outer_spec:
  "stride_inv n st order visited cnt \<Longrightarrow>
   (\<And>j. j < n \<Longrightarrow> ((j + k) mod 2 ^ 64) mod n = st j) \<Longrightarrow>
   (cnt < n \<longrightarrow> start < n \<and> \<not> visited ! start) \<Longrightarrow>
   (\<forall>j < start. j < n \<longrightarrow> visited ! j) \<Longrightarrow>
   (cnt = 0 \<longrightarrow> start = 0) \<Longrightarrow>
   (0 < cnt \<longrightarrow> cnt < n \<longrightarrow> st (last (take cnt order)) \<in> set (take cnt order)) \<Longrightarrow>
     take n (stride_outer k order visited cnt start) = stride_prefix n st n
     \<and> is_permutation n (take n (stride_outer k order visited cnt start))
     \<and> drop n (stride_outer k order visited cnt start) = drop n order"
proof (induction k order visited cnt start rule: stride_outer.induct)
  case (1 k order visited cnt start)
  note inv = "1.prems"(1) and step = "1.prems"(2) and st0 = "1.prems"(3)
    and below = "1.prems"(4) and first = "1.prems"(5) and closed = "1.prems"(6)
  have lv: "length visited = n" and cn: "cnt \<le> n"
    and vis: "\<forall>j<n. visited ! j \<longleftrightarrow> j \<in> set (take cnt order)"
    using inv unfolding stride_inv_def by blast+
  show ?case
  proof (cases "cnt < n")
    case False
    with cn have e: "cnt = n" by simp
    have r: "stride_outer k order visited cnt start = order"
      using False lv by (subst stride_outer.simps) simp
    have "take n order = stride_prefix n st n \<and> is_permutation n (take n order)"
      using inv unfolding e by (rule stride_inv_done)
    then show ?thesis unfolding r by blast
  next
    case True
    then have s: "start < n" "\<not> visited ! start" using st0 by simp_all
    obtain order' visited' cnt' where
      w: "stride_walk k order visited cnt start = (order', visited', cnt')"
      by (cases "stride_walk k order visited cnt start") auto
    have nxt: "0 < cnt \<longrightarrow> \<not> visited ! start \<longrightarrow> start = stride_next n st (take cnt order)"
    proof (intro impI)
      assume c: "0 < cnt"
      then have cl: "st (last (take cnt order)) \<in> set (take cnt order)" using closed True by simp
      have "first_unvisited n (take cnt order) = start"
      proof (rule first_unvisited_eq [OF s(1)])
        show "start \<notin> set (take cnt order)" using vis s by simp
        show "j \<in> set (take cnt order)" if "j < start" for j
          using that below vis s(1) by simp
      qed
      with cl show "start = stride_next n st (take cnt order)" by (simp add: stride_next_def)
    qed
    have wi: "stride_inv n st order' visited' cnt' \<and> drop n order' = drop n order \<and> cnt \<le> cnt'
        \<and> (\<forall>j<n. visited ! j \<longrightarrow> visited' ! j)
        \<and> (\<not> visited ! start \<longrightarrow> cnt < cnt'
              \<and> st (last (take cnt' order')) \<in> set (take cnt' order'))"
      by (rule stride_walk_inv [OF inv step s(1) first nxt w])
    then have inv': "stride_inv n st order' visited' cnt'" and dr: "drop n order' = drop n order"
      and mono: "\<forall>j<n. visited ! j \<longrightarrow> visited' ! j" and grow: "cnt < cnt'"
      and closed': "st (last (take cnt' order')) \<in> set (take cnt' order')"
      using s(2) by blast+
    have lv': "length visited' = n" and cn': "cnt' \<le> n"
      using inv' unfolding stride_inv_def by blast+
    have c0: "cnt < length visited" using True lv by simp
    have wsym: "(order', visited', cnt') = stride_walk k order visited cnt start"
      using w by simp
    show ?thesis
    proof (cases "cnt' < n")
      case True
      define start' where "start' = stride_skip visited' start"
      have sk: "start \<le> start'" "start' \<le> n"
        "\<forall>j. start \<le> j \<and> j < start' \<longrightarrow> visited' ! j"
        "start' < n \<longrightarrow> \<not> visited' ! start'"
        using stride_skip_spec [of start visited'] s(1) lv' unfolding start'_def by simp_all
      have below': "\<forall>j < start'. j < n \<longrightarrow> visited' ! j"
      proof (intro allI impI)
        fix j assume j: "j < start'" "j < n"
        show "visited' ! j"
        proof (cases "j < start")
          case True
          then have "visited ! j" using below j(2) by simp
          then show ?thesis using mono j(2) by simp
        next
          case False
          then show ?thesis using sk(3) j(1) by simp
        qed
      qed
      have sn: "start' < n"
      proof (rule ccontr)
        assume "\<not> start' < n"
        with sk(2) have "start' = n" by simp
        with below' have "\<And>j. j < n \<Longrightarrow> visited' ! j" by simp
        from stride_inv_full [OF inv' this] True show False by simp
      qed
      have unfold: "stride_outer k order visited cnt start
                      = stride_outer k order' visited' cnt' start'"
        using c0 True sn lv unfolding start'_def
        by (subst stride_outer.simps) (simp add: w Let_def)
      have "take n (stride_outer k order' visited' cnt' start') = stride_prefix n st n
          \<and> is_permutation n (take n (stride_outer k order' visited' cnt' start'))
          \<and> drop n (stride_outer k order' visited' cnt' start') = drop n order'"
      proof (rule "1.IH"(1) [OF c0 wsym refl _ start'_def _ inv' step])
        show "cnt' < length visited" using True lv by simp
        show "\<not> length visited \<le> start'" using sn lv by simp
        show "cnt' < n \<longrightarrow> start' < n \<and> \<not> visited' ! start'" using sn sk(4) by simp
        show "\<forall>j < start'. j < n \<longrightarrow> visited' ! j" by (rule below')
        show "cnt' = 0 \<longrightarrow> start' = 0" using grow by simp
        show "0 < cnt' \<longrightarrow> cnt' < n \<longrightarrow> st (last (take cnt' order')) \<in> set (take cnt' order')"
          using closed' by simp
      qed
      then have a: "take n (stride_outer k order' visited' cnt' start') = stride_prefix n st n"
        and b: "is_permutation n (take n (stride_outer k order' visited' cnt' start'))"
        and c: "drop n (stride_outer k order' visited' cnt' start') = drop n order'"
        by blast+
      show ?thesis unfolding unfold
      proof (intro conjI)
        show "take n (stride_outer k order' visited' cnt' start') = stride_prefix n st n" by (rule a)
        show "is_permutation n (take n (stride_outer k order' visited' cnt' start'))" by (rule b)
        show "drop n (stride_outer k order' visited' cnt' start') = drop n order"
          using c dr by (rule trans)
      qed
    next
      case False
      have unfold: "stride_outer k order visited cnt start
                      = stride_outer k order' visited' cnt' start"
        using c0 False lv by (subst stride_outer.simps) (simp add: w)
      have "take n (stride_outer k order' visited' cnt' start) = stride_prefix n st n
          \<and> is_permutation n (take n (stride_outer k order' visited' cnt' start))
          \<and> drop n (stride_outer k order' visited' cnt' start) = drop n order'"
      proof (rule "1.IH"(2) [OF c0 wsym refl _ inv' step])
        show "\<not> cnt' < length visited" using False lv by simp
        show "cnt' < n \<longrightarrow> start < n \<and> \<not> visited' ! start" using False by simp
        show "\<forall>j < start. j < n \<longrightarrow> visited' ! j" using below mono by simp
        show "cnt' = 0 \<longrightarrow> start = 0" using grow by simp
        show "0 < cnt' \<longrightarrow> cnt' < n \<longrightarrow> st (last (take cnt' order')) \<in> set (take cnt' order')"
          using False by simp
      qed
      then have a: "take n (stride_outer k order' visited' cnt' start) = stride_prefix n st n"
        and b: "is_permutation n (take n (stride_outer k order' visited' cnt' start))"
        and c: "drop n (stride_outer k order' visited' cnt' start) = drop n order'"
        by blast+
      show ?thesis unfolding unfold
      proof (intro conjI)
        show "take n (stride_outer k order' visited' cnt' start) = stride_prefix n st n" by (rule a)
        show "is_permutation n (take n (stride_outer k order' visited' cnt' start))" by (rule b)
        show "drop n (stride_outer k order' visited' cnt' start) = drop n order"
          using c dr by (rule trans)
      qed
    qed
  qed
qed

lemma stride_inv_init:
  "n \<le> length order \<Longrightarrow> stride_inv n st order (replicate n False) 0"
  by (simp add: stride_inv_def stride_prefix_def)

lemma build_order_stride_ok:
  assumes "0 < n" and "n \<le> length order" and "0 < k"
    and "\<And>j. j < n \<Longrightarrow> ((j + k) mod 2 ^ 64) mod n = st j"
  shows "take n (build_order_stride True order n k) = stride_prefix n st n
     \<and> is_permutation n (take n (build_order_stride True order n k))
     \<and> drop n (build_order_stride True order n k) = drop n order"
proof -
  have e: "build_order_stride True order n k = stride_outer k order (replicate n False) 0 0"
    using assms(1,3) by (simp add: build_order_stride_def)
  show ?thesis
    unfolding e
    by (rule stride_outer_spec [OF stride_inv_init [OF assms(2)] assms(4)])
       (use assms(1) in simp_all)
qed

lemma build_order_stride_fallback:
  assumes "n \<le> length order"
  shows "build_order_stride False order n k = [0..<n] @ drop n order"
  using assms by (cases "n = 0") (simp_all add: build_order_stride_def build_order_sequential_eq)

subsection \<open>Random\<close>




subsection \<open>Every pattern\<close>







lemma hd_orbit_list: "e \<noteq> [] \<Longrightarrow> hd (orbit_list n st m e) = hd e"
  by (induction m arbitrary: e) simp_all

lemma stride_spec_mod: "stride_spec n (k mod n) = stride_spec n k"
  by (simp add: stride_spec_def mod_add_right_eq)

lemmas stride_eval = build_order_stride_def stride_outer.simps stride_walk.simps stride_skip.simps
  build_order_sequential_def build_order_sequential_loop.simps numeral_2_eq_2 [symmetric]

lemma stride_8_3:
  "build_order_stride True [0, 0, 0, 0, 0, 0, 0, 0] 8 3 = [0, 3, 6, 1, 4, 7, 2, 5]"
  by (simp add: stride_eval)

lemma stride_spec_5_4: "stride_spec 5 4 = [0, 4, 3, 2, 1]"
  by code_simp

text \<open>
  Claim C8 (the stride order is the concatenation of the orbits of \<open>i \<mapsto> (i + k) mod n\<close>,
  and is \<open>[0,3,6,1,4,7,2,5]\<close> for \<open>n = 8\<close>, \<open>k = 3\<close>) does not hold as stated. When
  \<^verbatim>\<open>calloc\<close> returns no scratch array the builder writes the sequential order instead;
  and \<^verbatim>\<open>(i + k) % num_nodes\<close> adds in 64 bits, so a step close to \<open>2 ^ 64\<close> wraps
  around: for \<open>n = 5\<close> and \<open>k = 2 ^ 64 - 2\<close>, which is 4 modulo 5, the index after 4 is 2
  and not 3.
\<close>

theorem build_order_stride_counterexample:
  "build_order_stride False [0, 0, 0, 0, 0, 0, 0, 0] 8 3 = [0, 1, 2, 3, 4, 5, 6, 7]
   \<and> [0, 1, 2, 3, 4, 5, 6, 7] \<noteq> [0, 3, 6, 1, 4, 7, 2, 5 :: nat]
   \<and> build_order_stride True [0, 0, 0, 0, 0] 5 (2 ^ 64 - 2) = [0, 4, 2, 1, 3]
   \<and> stride_spec 5 (2 ^ 64 - 2) = [0, 4, 3, 2, 1]"
proof (intro conjI)
  show "build_order_stride False [0, 0, 0, 0, 0, 0, 0, 0] 8 3 = [0, 1, 2, 3, 4, 5, 6, 7]"
    by (simp add: stride_eval)
  show "[0, 1, 2, 3, 4, 5, 6, 7] \<noteq> [0, 3, 6, 1, 4, 7, 2, 5 :: nat]"
    by simp
  show "build_order_stride True [0, 0, 0, 0, 0] 5 (2 ^ 64 - 2) = [0, 4, 2, 1, 3]"
    by (simp add: stride_eval)
  have "(2 ^ 64 - 2) mod 5 = (4::nat)" by simp
  then show "stride_spec 5 (2 ^ 64 - 2) = [0, 4, 3, 2, 1]"
    using stride_spec_mod [of 5 "2 ^ 64 - 2"] stride_spec_5_4 by simp
qed

text \<open>
  Claim C8 as amended. For \<open>n \<ge> 1\<close>, \<open>k \<ge> 1\<close> with \<open>k + n \<le> 2 ^ 64\<close> (no wrap-around),
  when the scratch array is allocated, the first \<open>n\<close> entries written by
  \<^verbatim>\<open>build_order_stride\<close> are the specified order: it starts at index 0, advances by \<open>k\<close>
  modulo \<open>n\<close> while the index reached is unvisited, and otherwise restarts at the first
  unvisited index. That order is a permutation of \<open>[0, n)\<close>, and the entries behind the
  first \<open>n\<close> are untouched. When the allocation fails the order is the sequential one.
\<close>

theorem build_order_stride_orbits:
  assumes "1 \<le> n" and "1 \<le> k" and "k + n \<le> 2 ^ 64" and "n \<le> length order"
  shows "take n (build_order_stride True order n k) = stride_spec n k
       \<and> hd (stride_spec n k) = 0
       \<and> is_permutation n (stride_spec n k)
       \<and> drop n (build_order_stride True order n k) = drop n order
       \<and> build_order_stride False order n k = [0..<n] @ drop n order"
proof -
  have step: "((j + k) mod 2 ^ 64) mod n = (j + k) mod n" if "j < n" for j
  proof -
    have "j + k < 2 ^ 64" using that assms(3) by simp
    then show ?thesis by simp
  qed
  have n0: "0 < n" and k0: "0 < k" using assms(1,2) by simp_all
  have ok: "take n (build_order_stride True order n k) = stride_prefix n (\<lambda>i. (i + k) mod n) n
     \<and> is_permutation n (take n (build_order_stride True order n k))
     \<and> drop n (build_order_stride True order n k) = drop n order"
    using n0 assms(4) k0 step by (rule build_order_stride_ok)
  then have a: "take n (build_order_stride True order n k) = stride_spec n k"
    and b: "is_permutation n (take n (build_order_stride True order n k))"
    and c: "drop n (build_order_stride True order n k) = drop n order"
    unfolding stride_spec_def by blast+
  have d: "hd (stride_spec n k) = 0"
    using n0 by (simp add: stride_spec_def stride_prefix_def hd_orbit_list)
  have e: "build_order_stride False order n k = [0..<n] @ drop n order"
    using assms(4) by (rule build_order_stride_fallback)
  from b have b': "is_permutation n (stride_spec n k)" unfolding a .
  from a d b' c e show ?thesis by blast
qed

theorem build_order_stride_orbits_witness:
  "take 8 (build_order_stride True [0, 0, 0, 0, 0, 0, 0, 0] 8 3) = [0, 3, 6, 1, 4, 7, 2, 5]
   \<and> stride_spec 8 3 = [0, 3, 6, 1, 4, 7, 2, 5]
   \<and> is_permutation 8 [0, 3, 6, 1, 4, 7, 2, 5]"
proof -
  have h: "(1::nat) \<le> 8" "(1::nat) \<le> 3" "(3::nat) + 8 \<le> 2 ^ 64"
    "8 \<le> length [0, 0, 0, 0, 0, 0, 0, 0 :: nat]" by simp_all
  from build_order_stride_orbits [OF h]
  have a: "take 8 (build_order_stride True [0, 0, 0, 0, 0, 0, 0, 0] 8 3) = stride_spec 8 3"
    and b: "is_permutation 8 (stride_spec 8 3)" by blast+
  have c: "take 8 (build_order_stride True [0, 0, 0, 0, 0, 0, 0, 0] 8 3) = [0, 3, 6, 1, 4, 7, 2, 5]"
    by (simp add: stride_8_3)
  have d: "stride_spec 8 3 = [0, 3, 6, 1, 4, 7, 2, 5]"
    using a [symmetric] c by (rule trans)
  from b have "is_permutation 8 [0, 3, 6, 1, 4, 7, 2, 5]" unfolding d .
  with c d show ?thesis by blast
qed

section \<open>Properties of the measurer with no repeats\<close>



















end
